theory Spec2Isabelle
  imports Main "HOL-Library.Word"
begin

unbundle bit_operations_syntax

section \<open>Python values, exceptions and sequence operations\<close>

text \<open>
  The program is the class \<open>AES\<close> of \<open>Block Ciphers/aes.py\<close>. A Python \<open>bytes\<close>
  object is a list of 8-bit words; iterating or indexing it yields Python integers
  (\<open>ints_of\<close>), and \<open>bytes(...)\<close> of a list of integers (\<open>to_bytes\<close>) raises when an
  element lies outside \<open>range(256)\<close>. Every exception the code can raise is a value:
  \<open>InvalidKeySize\<close> is the \<open>ValueError\<close> raised by \<open>__init__\<close>, \<open>BytesRange\<close> the
  \<open>ValueError\<close> raised by \<open>bytes(...)\<close>, \<open>IndexError\<close> the one raised by subscripting.
\<close>

datatype error = InvalidKeySize | BytesRange | IndexError

type_synonym byte = "8 word"
type_synonym bytes = "byte list"

definition ebind :: "error + 'a \<Rightarrow> ('a \<Rightarrow> error + 'b) \<Rightarrow> error + 'b" where
  "ebind m f = (case m of Inl e \<Rightarrow> Inl e | Inr x \<Rightarrow> f x)"

text \<open>A list comprehension whose element expression may raise: left to right, the
  first exception ends it.\<close>

fun collect :: "('a \<Rightarrow> error + 'b) \<Rightarrow> 'a list \<Rightarrow> error + 'b list" where
  "collect f [] = Inr []"
| "collect f (x # xs) =
     (case f x of Inl e \<Rightarrow> Inl e
      | Inr y \<Rightarrow> (case collect f xs of Inl e \<Rightarrow> Inl e | Inr ys \<Rightarrow> Inr (y # ys)))"

text \<open>A \<open>for\<close> loop over a list, threading the variables it assigns.\<close>

fun foreach :: "'a list \<Rightarrow> ('a \<Rightarrow> 's \<Rightarrow> error + 's) \<Rightarrow> 's \<Rightarrow> error + 's" where
  "foreach [] body s = Inr s"
| "foreach (x # xs) body s =
     (case body x s of Inl e \<Rightarrow> Inl e | Inr s' \<Rightarrow> foreach xs body s')"

text \<open>
  Subscripts. For a sequence of \<open>n\<close> items Python accepts the indices \<open>-n \<dots> n - 1\<close>,
  a negative one counting from the end; any other index raises \<open>IndexError\<close>.
  \<open>getitem\<close> is \<open>xs[i]\<close> and \<open>setitem\<close> is \<open>xs[i] = v\<close>.
\<close>

definition norm_index :: "nat \<Rightarrow> int \<Rightarrow> nat option" where
  "norm_index n i =
     (if 0 \<le> i \<and> i < int n then Some (nat i)
      else if i < 0 \<and> - int n \<le> i then Some (nat (int n + i))
      else None)"

definition getitem :: "'a list \<Rightarrow> int \<Rightarrow> error + 'a" where
  "getitem xs i =
     (case norm_index (length xs) i of None \<Rightarrow> Inl IndexError | Some j \<Rightarrow> Inr (xs ! j))"

definition setitem :: "'a list \<Rightarrow> int \<Rightarrow> 'a \<Rightarrow> error + 'a list" where
  "setitem xs i v =
     (case norm_index (length xs) i of None \<Rightarrow> Inl IndexError | Some j \<Rightarrow> Inr (xs[j := v]))"

text \<open>\<open>xs[a:b]\<close> for \<open>0 \<le> a\<close> and \<open>0 \<le> b\<close>: slices never raise.\<close>

definition py_slice :: "'a list \<Rightarrow> nat \<Rightarrow> nat \<Rightarrow> 'a list" where
  "py_slice xs a b = take (b - a) (drop a xs)"

text \<open>\<open>range(a, b)\<close> and \<open>range(a, b, s)\<close> for a positive step \<open>s\<close>.\<close>

definition py_range :: "int \<Rightarrow> int \<Rightarrow> int list" where
  "py_range a b = [a..b - 1]"

definition py_range_step :: "int \<Rightarrow> int \<Rightarrow> int \<Rightarrow> int list" where
  "py_range_step a b s = map (\<lambda>k. a + s * k) [0..(b - a - 1) div s]"

definition ints_of :: "bytes \<Rightarrow> int list" where
  "ints_of bs = map uint bs"

definition to_bytes :: "int list \<Rightarrow> error + bytes" where
  "to_bytes xs =
     (if list_all (\<lambda>x. 0 \<le> x \<and> x < 256) xs then Inr (map word_of_int xs)
      else Inl BytesRange)"

section \<open>Constant tables\<close>

definition S_BOX :: "int list" where
  "S_BOX = [
     0x63, 0x7c, 0x77, 0x7b, 0xf2, 0x6b, 0x6f, 0xc5, 0x30, 0x01, 0x67, 0x2b, 0xfe, 0xd7, 0xab, 0x76,
     0xca, 0x82, 0xc9, 0x7d, 0xfa, 0x59, 0x47, 0xf0, 0xad, 0xd4, 0xa2, 0xaf, 0x9c, 0xa4, 0x72, 0xc0,
     0xb7, 0xfd, 0x93, 0x26, 0x36, 0x3f, 0xf7, 0xcc, 0x34, 0xa5, 0xe5, 0xf1, 0x71, 0xd8, 0x31, 0x15,
     0x04, 0xc7, 0x23, 0xc3, 0x18, 0x96, 0x05, 0x9a, 0x07, 0x12, 0x80, 0xe2, 0xeb, 0x27, 0xb2, 0x75,
     0x09, 0x83, 0x2c, 0x1a, 0x1b, 0x6e, 0x5a, 0xa0, 0x52, 0x3b, 0xd6, 0xb3, 0x29, 0xe3, 0x2f, 0x84,
     0x53, 0xd1, 0x00, 0xed, 0x20, 0xfc, 0xb1, 0x5b, 0x6a, 0xcb, 0xbe, 0x39, 0x4a, 0x4c, 0x58, 0xcf,
     0xd0, 0xef, 0xaa, 0xfb, 0x43, 0x4d, 0x33, 0x85, 0x45, 0xf9, 0x02, 0x7f, 0x50, 0x3c, 0x9f, 0xa8,
     0x51, 0xa3, 0x40, 0x8f, 0x92, 0x9d, 0x38, 0xf5, 0xbc, 0xb6, 0xda, 0x21, 0x10, 0xff, 0xf3, 0xd2,
     0xcd, 0x0c, 0x13, 0xec, 0x5f, 0x97, 0x44, 0x17, 0xc4, 0xa7, 0x7e, 0x3d, 0x64, 0x5d, 0x19, 0x73,
     0x60, 0x81, 0x4f, 0xdc, 0x22, 0x2a, 0x90, 0x88, 0x46, 0xee, 0xb8, 0x14, 0xde, 0x5e, 0x0b, 0xdb,
     0xe0, 0x32, 0x3a, 0x0a, 0x49, 0x06, 0x24, 0x5c, 0xc2, 0xd3, 0xac, 0x62, 0x91, 0x95, 0xe4, 0x79,
     0xe7, 0xc8, 0x37, 0x6d, 0x8d, 0xd5, 0x4e, 0xa9, 0x6c, 0x56, 0xf4, 0xea, 0x65, 0x7a, 0xae, 0x08,
     0xba, 0x78, 0x25, 0x2e, 0x1c, 0xa6, 0xb4, 0xc6, 0xe8, 0xdd, 0x74, 0x1f, 0x4b, 0xbd, 0x8b, 0x8a,
     0x70, 0x3e, 0xb5, 0x66, 0x48, 0x03, 0xf6, 0x0e, 0x61, 0x35, 0x57, 0xb9, 0x86, 0xc1, 0x1d, 0x9e,
     0xe1, 0xf8, 0x98, 0x11, 0x69, 0xd9, 0x8e, 0x94, 0x9b, 0x1e, 0x87, 0xe9, 0xce, 0x55, 0x28, 0xdf,
     0x8c, 0xa1, 0x89, 0x0d, 0xbf, 0xe6, 0x42, 0x68, 0x41, 0x99, 0x2d, 0x0f, 0xb0, 0x54, 0xbb, 0x16
  ]"

definition RCON :: "int list" where
  "RCON = [0x01, 0x02, 0x04, 0x08, 0x10, 0x20, 0x40, 0x80, 0x1B, 0x36]"

section \<open>State transformations\<close>

text \<open>
  Each function follows its Python body statement by statement. Every subscript goes
  through \<open>getitem\<close> or \<open>setitem\<close> and every \<open>bytes(...)\<close> through \<open>to_bytes\<close>, so a
  state shorter than 16 bytes makes \<open>shift_rows\<close> and \<open>mix_column\<close> return
  \<open>IndexError\<close>, as the code raises it. Python's \<open>^\<close> associates to the left and
  \<open>XOR\<close> to the right; the two agree because XOR is associative. In
  \<open>mix_single_column\<close> the four items are read before the sums are formed: the only
  exception possible there is the \<open>IndexError\<close> of the first missing item, in either order.
\<close>

definition add_round_key :: "bytes \<Rightarrow> bytes \<Rightarrow> error + bytes" where
  "add_round_key state round_key =
     to_bytes (map (\<lambda>(b, k). b XOR k) (zip (ints_of state) (ints_of round_key)))"

definition byte_substitution :: "bytes \<Rightarrow> error + bytes" where
  "byte_substitution state =
     ebind (collect (\<lambda>b. getitem S_BOX b) (ints_of state)) to_bytes"

definition shift_rows :: "bytes \<Rightarrow> error + bytes" where
  "shift_rows state =
     ebind (collect (\<lambda>r. collect (\<lambda>c. getitem (ints_of state) (r + 4 * c)) (py_range 0 4))
              (py_range 0 4)) (\<lambda>matrix.
     ebind (foreach (py_range 1 4) (\<lambda>r matrix.
              ebind (getitem matrix r) (\<lambda>row1.
              ebind (getitem matrix r) (\<lambda>row2.
              setitem matrix r (drop (nat r) row1 @ take (nat r) row2)))) matrix) (\<lambda>matrix.
     ebind (collect (\<lambda>(c, r). ebind (getitem matrix r) (\<lambda>row. getitem row c))
              (List.product (py_range 0 4) (py_range 0 4))) to_bytes))"

definition mul_by_02 :: "int \<Rightarrow> int" where
  "mul_by_02 b =
     (if b AND 0x80 \<noteq> 0 then (push_bit 1 b XOR 0x1B) AND 0xFF else push_bit 1 b AND 0xFF)"

definition mul_by_03 :: "int \<Rightarrow> int" where
  "mul_by_03 b = mul_by_02 b XOR b"

definition mul_by_01 :: "int \<Rightarrow> int" where
  "mul_by_01 b = b"

definition mix_single_column :: "int list \<Rightarrow> error + int list" where
  "mix_single_column a =
     ebind (getitem a 0) (\<lambda>a0.
     ebind (getitem a 1) (\<lambda>a1.
     ebind (getitem a 2) (\<lambda>a2.
     ebind (getitem a 3) (\<lambda>a3.
     Inr [mul_by_02 a0 XOR mul_by_03 a1 XOR a2 XOR a3,
          a0 XOR mul_by_02 a1 XOR mul_by_03 a2 XOR a3,
          a0 XOR a1 XOR mul_by_02 a2 XOR mul_by_03 a3,
          mul_by_03 a0 XOR a1 XOR a2 XOR mul_by_02 a3]))))"

definition mix_column :: "bytes \<Rightarrow> error + bytes" where
  "mix_column state =
     ebind (collect (\<lambda>c. collect (\<lambda>r. getitem (ints_of state) (r + 4 * c)) (py_range 0 4))
              (py_range 0 4)) (\<lambda>matrix.
     ebind (collect mix_single_column matrix) (\<lambda>mixed.
     ebind (collect (\<lambda>(c, r). ebind (getitem mixed c) (\<lambda>col. getitem col r))
              (List.product (py_range 0 4) (py_range 0 4))) to_bytes))"

section \<open>Key schedule\<close>

text \<open>The body of the \<open>while\<close> loop of \<open>key_expansion\<close>: the word it appends.\<close>

definition next_word :: "int list list \<Rightarrow> int \<Rightarrow> error + int list" where
  "next_word key_columns i =
     ebind (getitem key_columns (- 1)) (\<lambda>word.
     ebind (if i mod 4 = 0 then
              (let word = drop 1 word @ take 1 word in
               ebind (collect (\<lambda>b. getitem S_BOX b) word) (\<lambda>word.
               ebind (getitem word 0) (\<lambda>w0.
               ebind (getitem RCON (i div 4 - 1)) (\<lambda>rc.
               setitem word 0 (w0 XOR rc)))))
            else Inr word) (\<lambda>word.
     ebind (getitem key_columns (i - 4)) (\<lambda>prev.
     Inr (map (\<lambda>(a, b). a XOR b) (zip word prev)))))"

function key_expansion_loop :: "int list list \<Rightarrow> int \<Rightarrow> error + int list list" where
  "key_expansion_loop key_columns i =
     (if length key_columns < 44 then
        (case next_word key_columns i of
           Inl e \<Rightarrow> Inl e
         | Inr word \<Rightarrow> key_expansion_loop (key_columns @ [word]) (i + 1))
      else Inr key_columns)"
  by pat_completeness auto
termination
  by (relation "measure (\<lambda>(key_columns, i). 44 - length key_columns)") auto

declare key_expansion_loop.simps [simp del]

definition key_expansion :: "bytes \<Rightarrow> error + bytes list" where
  "key_expansion key =
     (let key_columns = map (\<lambda>i. ints_of (py_slice key (nat i) (nat (i + 4)))) (py_range_step 0 16 4)
      in ebind (key_expansion_loop key_columns 4) (\<lambda>key_columns.
         let round_keys = map (\<lambda>i. concat (py_slice key_columns (nat i) (nat (i + 4))))
                            (py_range_step 0 44 4)
         in collect to_bytes round_keys))"

section \<open>Cipher driver\<close>

record AES =
  key :: bytes
  round_keys :: "bytes list"

definition AES_init :: "bytes \<Rightarrow> error + AES" where
  "AES_init k =
     (if length k \<noteq> 16 then Inl InvalidKeySize
      else ebind (key_expansion k) (\<lambda>rks. Inr \<lparr>key = k, round_keys = rks\<rparr>))"

definition round :: "bytes \<Rightarrow> bytes \<Rightarrow> error + bytes" where
  "round state round_key =
     ebind (byte_substitution state) (\<lambda>state.
     ebind (shift_rows state) (\<lambda>state.
     ebind (mix_column state) (\<lambda>state.
     add_round_key state round_key)))"

definition final_round :: "bytes \<Rightarrow> bytes \<Rightarrow> error + bytes" where
  "final_round state round_key =
     ebind (byte_substitution state) (\<lambda>state.
     ebind (shift_rows state) (\<lambda>state.
     add_round_key state round_key))"

definition partially_encrypt :: "AES \<Rightarrow> bytes \<Rightarrow> int \<Rightarrow> error + bytes" where
  "partially_encrypt self plaintext num_rounds =
     ebind (getitem (round_keys self) 0) (\<lambda>rk.
     ebind (add_round_key plaintext rk) (\<lambda>state.
     ebind (foreach (py_range 1 num_rounds) (\<lambda>i state.
              ebind (getitem (round_keys self) i) (\<lambda>rk. round state rk)) state) (\<lambda>state.
     if num_rounds = 10 then
       ebind (getitem (round_keys self) 10) (\<lambda>rk. final_round state rk)
     else Inr state)))"

definition encrypt :: "AES \<Rightarrow> bytes \<Rightarrow> error + bytes" where
  "encrypt self plaintext =
     ebind (getitem (round_keys self) 0) (\<lambda>rk.
     ebind (add_round_key plaintext rk) (\<lambda>state.
     ebind (foreach (py_range 1 10) (\<lambda>i state.
              ebind (getitem (round_keys self) i) (\<lambda>rk. round state rk)) state) (\<lambda>state.
     ebind (getitem (round_keys self) 10) (\<lambda>rk. final_round state rk))))"

section \<open>Definitions used by the statements and proofs\<close>

text \<open>
  The S-box image of one byte and the integers of one mixed column, as
  \<open>byte_substitution\<close> and \<open>mix_column\<close> compute them when no subscript is
  out of range.
\<close>

definition sub_byte :: "byte \<Rightarrow> byte" where
  "sub_byte b = word_of_int (S_BOX ! unat b)"

definition mixed_column :: "bytes \<Rightarrow> nat \<Rightarrow> int list" where
  "mixed_column s c =
     (let a0 = uint (s ! (4 * c)); a1 = uint (s ! (4 * c + 1));
          a2 = uint (s ! (4 * c + 2)); a3 = uint (s ! (4 * c + 3))
      in [mul_by_02 a0 XOR mul_by_03 a1 XOR a2 XOR a3,
          a0 XOR mul_by_02 a1 XOR mul_by_03 a2 XOR a3,
          a0 XOR a1 XOR mul_by_02 a2 XOR mul_by_03 a3,
          mul_by_03 a0 XOR a1 XOR a2 XOR mul_by_02 a3])"

text \<open>The invariant of the key-schedule loop: every word has four entries, each a byte value.\<close>

definition word_ok :: "int list \<Rightarrow> bool" where
  "word_ok w = (length w = 4 \<and> list_all (\<lambda>x. 0 \<le> x \<and> x < 256) w)"

text \<open>
  Multiplication in GF(2^8) as the specification names it, independent of the code: the
  carry-less (polynomial) product of two bytes over GF(2), reduced modulo the AES
  polynomial \<open>x^8 + x^4 + x^3 + x + 1\<close> (\<open>0x11B\<close>). A byte stands for the
  polynomial whose coefficient of \<open>x^n\<close> is its bit \<open>n\<close>; \<open>clmul n a b\<close> adds
  \<open>x^m * b\<close> for every set bit \<open>m < n\<close> of \<open>a\<close>, and \<open>poly_reduce k p\<close> cancels
  the coefficients of \<open>x^(8+k-1)\<close> down to \<open>x^8\<close>.
\<close>

fun clmul :: "nat \<Rightarrow> int \<Rightarrow> int \<Rightarrow> int" where
  "clmul 0 a b = 0"
| "clmul (Suc n) a b = clmul n a b XOR (if bit a n then push_bit n b else 0)"

fun poly_reduce :: "nat \<Rightarrow> int \<Rightarrow> int" where
  "poly_reduce 0 p = p"
| "poly_reduce (Suc k) p = poly_reduce k (if bit p (8 + k) then p XOR push_bit k 0x11B else p)"

definition gf_mul :: "int \<Rightarrow> int \<Rightarrow> int" where
  "gf_mul a b = poly_reduce 7 (clmul 8 a b)"

text \<open>The test vector of FIPS-197, Appendix B and C.1.\<close>

definition kat_key :: bytes where
  "kat_key = [0x00, 0x01, 0x02, 0x03, 0x04, 0x05, 0x06, 0x07,
              0x08, 0x09, 0x0a, 0x0b, 0x0c, 0x0d, 0x0e, 0x0f]"

definition kat_pt :: bytes where
  "kat_pt = [0x00, 0x11, 0x22, 0x33, 0x44, 0x55, 0x66, 0x77,
             0x88, 0x99, 0xaa, 0xbb, 0xcc, 0xdd, 0xee, 0xff]"

section \<open>Auxiliary lemmas\<close>

subsection \<open>Subscripts, comprehensions, byte conversion and the S-box\<close>

lemma ebind_Inr [simp]: "ebind (Inr x) f = f x"
  by (simp add: ebind_def)

lemma ebind_Inl [simp]: "ebind (Inl e) f = Inl e"
  by (simp add: ebind_def)

lemma getitem_nonneg: "0 \<le> i \<Longrightarrow> nat i < length xs \<Longrightarrow> getitem xs i = Inr (xs ! nat i)"
  by (simp add: getitem_def norm_index_def)

lemma getitem_last: "xs \<noteq> [] \<Longrightarrow> getitem xs (- 1) = Inr (last xs)"
proof -
  assume ne: "xs \<noteq> []"
  then have "1 \<le> int (length xs)" by (cases xs) simp_all
  then have "norm_index (length xs) (- 1) = Some (length xs - 1)"
    by (simp add: norm_index_def nat_diff_distrib)
  with ne show ?thesis by (simp add: getitem_def last_conv_nth)
qed

lemma setitem_nonneg: "0 \<le> i \<Longrightarrow> nat i < length xs \<Longrightarrow> setitem xs i v = Inr (xs[nat i := v])"
  by (simp add: setitem_def norm_index_def)

lemma collect_map: "(\<And>x. x \<in> set xs \<Longrightarrow> f x = Inr (g x)) \<Longrightarrow> collect f xs = Inr (map g xs)"
  by (induction xs) simp_all

lemma foreach_invariant:
  assumes "P s" and "\<And>x t. x \<in> set xs \<Longrightarrow> P t \<Longrightarrow> \<exists>t'. body x t = Inr t' \<and> P t'"
  shows "\<exists>s'. foreach xs body s = Inr s' \<and> P s'"
  using assms
proof (induction xs arbitrary: s)
  case Nil
  then show ?case by simp
next
  case (Cons x xs)
  from Cons.prems obtain t where t: "body x s = Inr t" "P t" by (meson list.set_intros(1))
  have "\<exists>s'. foreach xs body t = Inr s' \<and> P s'"
    by (rule Cons.IH [OF t(2)]) (simp add: Cons.prems(2))
  with t show ?case by simp
qed

lemma py_range_0_4: "py_range 0 4 = [0, 1, 2, 3]"
  by (simp add: py_range_def upto.simps)

lemma py_range_1_4: "py_range 1 4 = [1, 2, 3]"
  by (simp add: py_range_def upto.simps)

lemma py_range_1_10: "py_range 1 10 = [1, 2, 3, 4, 5, 6, 7, 8, 9]"
  by (simp add: py_range_def upto.simps)

lemma py_range_step_16: "py_range_step 0 16 4 = [0, 4, 8, 12]"
  by (simp add: py_range_step_def upto.simps)

lemma py_range_step_44: "py_range_step 0 44 4 = [0, 4, 8, 12, 16, 20, 24, 28, 32, 36, 40]"
  by (simp add: py_range_step_def upto.simps)

lemma to_bytes_range:
  "(\<And>x. x \<in> set xs \<Longrightarrow> 0 \<le> x \<and> x < 256) \<Longrightarrow> to_bytes xs = Inr (map word_of_int xs)"
  by (simp add: to_bytes_def list_all_iff)

lemma to_bytes_ints_of: "to_bytes (ints_of bs) = Inr bs"
proof -
  have "uint b < 256" for b :: byte
    using uint_bounded [of b] by simp
  then have "to_bytes (ints_of bs) = Inr (map word_of_int (ints_of bs))"
    by (intro to_bytes_range) (auto simp add: ints_of_def)
  then show ?thesis by (simp add: ints_of_def comp_def)
qed

lemma add_round_key_eq:
  "add_round_key state round_key = Inr (map (\<lambda>(b, k). b XOR k) (zip state round_key))"
proof -
  have "map (\<lambda>(b, k). b XOR k) (zip (ints_of state) (ints_of round_key))
      = ints_of (map (\<lambda>(b, k). b XOR k) (zip state round_key))"
    by (simp add: ints_of_def zip_map_map comp_def case_prod_unfold uint_xor)
  then show ?thesis by (simp add: add_round_key_def to_bytes_ints_of)
qed

lemma S_BOX_length: "length S_BOX = 256"
  by (simp add: S_BOX_def)

lemma S_BOX_range: "list_all (\<lambda>x. 0 \<le> x \<and> x < 256) S_BOX"
  by (simp add: S_BOX_def)

lemma S_BOX_nth: "n < 256 \<Longrightarrow> 0 \<le> S_BOX ! n \<and> S_BOX ! n < 256"
  using S_BOX_range by (simp add: list_all_length S_BOX_length)

lemma getitem_S_BOX: "0 \<le> b \<Longrightarrow> b < 256 \<Longrightarrow> getitem S_BOX b = Inr (S_BOX ! nat b)"
  by (simp add: getitem_nonneg S_BOX_length)

lemma byte_substitution_eq: "byte_substitution state = Inr (map sub_byte state)"
proof -
  have lt: "uint b < 256" for b :: byte
    using uint_bounded [of b] by simp
  have ult: "unat b < 256" for b :: byte
    using unsigned_less [of b, where ?'a = nat] by simp
  have "collect (\<lambda>b. getitem S_BOX b) (ints_of state) = Inr (map (\<lambda>b. S_BOX ! nat b) (ints_of state))"
    by (rule collect_map) (auto simp add: ints_of_def getitem_S_BOX lt)
  moreover have "to_bytes (map (\<lambda>b. S_BOX ! nat b) (ints_of state)) = Inr (map word_of_int (map (\<lambda>b. S_BOX ! nat b) (ints_of state)))"
    by (rule to_bytes_range) (auto simp add: ints_of_def S_BOX_nth ult)
  ultimately show ?thesis
    by (simp add: byte_substitution_def ints_of_def comp_def sub_byte_def)
qed

subsection \<open>ShiftRows and the range of the field helpers\<close>

lemma uint_byte_lt: "uint (b :: byte) < 256"
  using uint_bounded [of b] by simp

lemma length_ge_16E:
  assumes "16 \<le> length s"
  obtains x0 x1 x2 x3 x4 x5 x6 x7 x8 x9 x10 x11 x12 x13 x14 x15 rest
  where "s = x0 # x1 # x2 # x3 # x4 # x5 # x6 # x7 # x8 # x9 # x10 # x11 # x12 # x13 # x14 # x15 # rest"
proof -
  have "16 = Suc (Suc (Suc (Suc (Suc (Suc (Suc (Suc (Suc (Suc (Suc (Suc (Suc (Suc (Suc (Suc 0)))))))))))))))"
    by simp
  with assms show thesis
    using that by (auto simp add: Suc_le_length_iff)
qed

lemma shift_rows_eq:
  assumes "16 \<le> length s"
  shows "shift_rows s = Inr [s ! 0, s ! 5, s ! 10, s ! 15, s ! 4, s ! 9, s ! 14, s ! 3,
                             s ! 8, s ! 13, s ! 2, s ! 7, s ! 12, s ! 1, s ! 6, s ! 11]"
proof -
  from assms obtain x0 x1 x2 x3 x4 x5 x6 x7 x8 x9 x10 x11 x12 x13 x14 x15 rest
    where s: "s = x0 # x1 # x2 # x3 # x4 # x5 # x6 # x7 # x8 # x9 # x10 # x11 # x12 # x13 # x14 # x15 # rest"
    by (rule length_ge_16E)
  show ?thesis
    unfolding s
    by (simp add: shift_rows_def py_range_0_4 py_range_1_4 ints_of_def
      getitem_def setitem_def norm_index_def to_bytes_def uint_byte_lt)
qed

lemma mul_by_02_range: "0 \<le> mul_by_02 b \<and> mul_by_02 b < 256"
proof -
  have "x AND 0xFF < 256" for x :: int
    using AND_upper2' [of 255 x] by simp
  then show ?thesis by (simp add: mul_by_02_def)
qed

lemma xor_byte_range:
  "0 \<le> a \<and> a < 256 \<Longrightarrow> 0 \<le> b \<and> b < 256 \<Longrightarrow> 0 \<le> a XOR b \<and> a XOR b < (256 :: int)"
  using XOR_upper [of a 8 b] by simp

lemma mul_by_03_range: "0 \<le> b \<and> b < 256 \<Longrightarrow> 0 \<le> mul_by_03 b \<and> mul_by_03 b < 256"
  unfolding mul_by_03_def by (rule xor_byte_range [OF mul_by_02_range])

subsection \<open>MixColumns and the two kinds of round\<close>

lemma mul_by_02_nonneg: "0 \<le> mul_by_02 b"
  using mul_by_02_range by simp

lemma mul_by_02_lt: "mul_by_02 b < 256"
  using mul_by_02_range by simp

lemma xor_lt_256: "0 \<le> a \<Longrightarrow> a < 256 \<Longrightarrow> 0 \<le> b \<Longrightarrow> b < 256 \<Longrightarrow> a XOR b < (256 :: int)"
  using xor_byte_range by simp

lemma mul_by_03_nonneg: "0 \<le> b \<Longrightarrow> 0 \<le> mul_by_03 b"
  by (simp add: mul_by_03_def mul_by_02_nonneg)

lemma mul_by_03_lt: "0 \<le> b \<Longrightarrow> b < 256 \<Longrightarrow> mul_by_03 b < 256"
  using mul_by_03_range by simp

lemma mixed_column_range:
  "x \<in> set (mixed_column s c) \<Longrightarrow> 0 \<le> x \<and> x < 256"
  by (auto simp add: mixed_column_def Let_def mul_by_02_nonneg mul_by_03_nonneg
      mul_by_02_lt mul_by_03_lt uint_byte_lt intro!: xor_lt_256)

lemma mix_column_collect:
  assumes "16 \<le> length s"
  shows "mix_column s =
    to_bytes (mixed_column s 0 @ mixed_column s 1 @ mixed_column s 2 @ mixed_column s 3)"
proof -
  from assms obtain x0 x1 x2 x3 x4 x5 x6 x7 x8 x9 x10 x11 x12 x13 x14 x15 rest
    where s: "s = x0 # x1 # x2 # x3 # x4 # x5 # x6 # x7 # x8 # x9 # x10 # x11 # x12 # x13 # x14 # x15 # rest"
    by (rule length_ge_16E)
  show ?thesis
    unfolding s
    by (simp add: mix_column_def py_range_0_4 ints_of_def mix_single_column_def
      getitem_def norm_index_def mixed_column_def Let_def)
qed

lemma mix_column_eq:
  assumes "16 \<le> length s"
  shows "mix_column s = Inr (map word_of_int
    (mixed_column s 0 @ mixed_column s 1 @ mixed_column s 2 @ mixed_column s 3))"
  unfolding mix_column_collect [OF assms]
  by (rule to_bytes_range) (auto dest: mixed_column_range)

lemma length_mixed_column: "length (mixed_column s c) = 4"
  by (simp add: mixed_column_def Let_def)

lemma round_ok:
  assumes "16 \<le> length s" and "length rk = 16"
  shows "\<exists>t. round s rk = Inr t \<and> length t = 16"
  using assms
  by (simp add: round_def byte_substitution_eq shift_rows_eq mix_column_eq
      add_round_key_eq length_mixed_column)

lemma final_round_ok:
  assumes "16 \<le> length s" and "length rk = 16"
  shows "\<exists>t. final_round s rk = Inr t \<and> length t = 16"
  using assms
  by (simp add: final_round_def byte_substitution_eq shift_rows_eq add_round_key_eq)

subsection \<open>The invariant of the key-schedule loop\<close>

lemma word_okI: "length w = 4 \<Longrightarrow> (\<And>x. x \<in> set w \<Longrightarrow> 0 \<le> x \<and> x < 256) \<Longrightarrow> word_ok w"
  by (simp add: word_ok_def list_all_iff)

lemma word_ok_length: "word_ok w \<Longrightarrow> length w = 4"
  by (simp add: word_ok_def)

lemma word_ok_range: "word_ok w \<Longrightarrow> x \<in> set w \<Longrightarrow> 0 \<le> x \<and> x < 256"
  by (simp add: word_ok_def list_all_iff)

lemma RCON_length: "length RCON = 10"
  by (simp add: RCON_def)

lemma RCON_nth: "n < 10 \<Longrightarrow> 0 \<le> RCON ! n \<and> RCON ! n < 256"
proof -
  have "list_all (\<lambda>x. 0 \<le> x \<and> x < 256) RCON" by (simp add: RCON_def)
  then show "n < 10 \<Longrightarrow> 0 \<le> RCON ! n \<and> RCON ! n < 256"
    by (simp add: list_all_length RCON_length)
qed

lemma word_ok_xor:
  assumes "word_ok a" and "word_ok b"
  shows "word_ok (map (\<lambda>(x, y). x XOR y) (zip a b))"
proof (rule word_okI)
  show "length (map (\<lambda>(x, y). x XOR y) (zip a b)) = 4"
    using assms by (simp add: word_ok_length)
next
  fix x assume "x \<in> set (map (\<lambda>(x, y). x XOR y) (zip a b))"
  then obtain p q where pq: "(p, q) \<in> set (zip a b)" and x: "x = p XOR q" by auto
  from pq have "p \<in> set a" and "q \<in> set b" by (auto dest: set_zip_leftD set_zip_rightD)
  with assms have "0 \<le> p \<and> p < 256" and "0 \<le> q \<and> q < 256"
    by (auto dest: word_ok_range)
  then show "0 \<le> x \<and> x < 256" unfolding x by (rule xor_byte_range)
qed

lemma sub_word_ok:
  fixes i :: int
  assumes i: "4 \<le> i" "i < 44" and "word_ok w"
  shows "\<exists>v. ebind (collect (\<lambda>b. getitem S_BOX b) (drop 1 w @ take 1 w)) (\<lambda>word.
            ebind (getitem word 0) (\<lambda>w0.
            ebind (getitem RCON (i div 4 - 1)) (\<lambda>rc. setitem word 0 (w0 XOR rc)))) = Inr v
          \<and> word_ok v"
proof -
  let ?r = "drop 1 w @ take 1 w"
  let ?s = "map (\<lambda>b. S_BOX ! nat b) ?r"
  have r: "x \<in> set ?r \<Longrightarrow> 0 \<le> x \<and> x < 256" for x
    using assms by (auto dest: word_ok_range in_set_dropD in_set_takeD)
  have len: "length ?s = 4" using assms by (simp add: word_ok_length)
  have c: "collect (\<lambda>b. getitem S_BOX b) ?r = Inr ?s"
    by (rule collect_map) (use r in \<open>simp add: getitem_S_BOX\<close>)
  have s: "x \<in> set ?s \<Longrightarrow> 0 \<le> x \<and> x < 256" for x
  proof -
    assume "x \<in> set ?s"
    then obtain b where "b \<in> set ?r" and x: "x = S_BOX ! nat b" by auto
    then have "nat b < 256" using r [of b] by auto
    then show ?thesis unfolding x by (rule S_BOX_nth)
  qed
  have g0: "getitem ?s 0 = Inr (?s ! 0)" using len by (simp add: getitem_nonneg)
  have n: "0 \<le> i div 4 - 1" "nat (i div 4 - 1) < 10" using i by simp_all
  have g1: "getitem RCON (i div 4 - 1) = Inr (RCON ! nat (i div 4 - 1))"
    using n by (simp add: getitem_nonneg RCON_length)
  let ?v = "?s[0 := ?s ! 0 XOR RCON ! nat (i div 4 - 1)]"
  have st: "setitem ?s 0 (?s ! 0 XOR RCON ! nat (i div 4 - 1)) = Inr ?v"
    using len by (simp add: setitem_nonneg)
  have "word_ok ?v"
  proof (rule word_okI)
    show "length ?v = 4" using len by simp
  next
    fix x assume "x \<in> set ?v"
    then have "x \<in> insert (?s ! 0 XOR RCON ! nat (i div 4 - 1)) (set ?s)"
      using set_update_subset_insert by fastforce
    moreover have "0 \<le> ?s ! 0 \<and> ?s ! 0 < 256" using len by (intro s nth_mem) simp
    then have "0 \<le> ?s ! 0 XOR RCON ! nat (i div 4 - 1) \<and> ?s ! 0 XOR RCON ! nat (i div 4 - 1) < 256"
      using RCON_nth [OF n(2)] by (rule xor_byte_range)
    ultimately show "0 \<le> x \<and> x < 256" using s by blast
  qed
  moreover have "ebind (collect (\<lambda>b. getitem S_BOX b) ?r) (\<lambda>word.
            ebind (getitem word 0) (\<lambda>w0.
            ebind (getitem RCON (i div 4 - 1)) (\<lambda>rc. setitem word 0 (w0 XOR rc)))) = Inr ?v"
    by (simp only: c g0 g1 st ebind_Inr)
  ultimately show ?thesis by blast
qed

lemma next_word_ok:
  assumes "4 \<le> length kcs" and "length kcs < 44" and "i = int (length kcs)"
    and "\<And>w. w \<in> set kcs \<Longrightarrow> word_ok w"
  shows "\<exists>w. next_word kcs i = Inr w \<and> word_ok w"
proof -
  have ne: "kcs \<noteq> []" using assms(1) by auto
  have l: "getitem kcs (- 1) = Inr (last kcs)" using ne by (rule getitem_last)
  have lo: "word_ok (last kcs)" using ne by (simp add: assms(4))
  have "nat (i - 4) < length kcs" "0 \<le> i - 4" using assms(1,3) by auto
  then have p: "getitem kcs (i - 4) = Inr (kcs ! nat (i - 4))"
    and po: "word_ok (kcs ! nat (i - 4))"
    by (simp_all add: getitem_nonneg assms(4))
  have i: "4 \<le> i" "i < 44" using assms(1-3) by auto
  show ?thesis
  proof (cases "i mod 4 = 0")
    case True
    from sub_word_ok [OF i lo] obtain v where
      v: "ebind (collect (\<lambda>b. getitem S_BOX b) (drop 1 (last kcs) @ take 1 (last kcs))) (\<lambda>word.
            ebind (getitem word 0) (\<lambda>w0.
            ebind (getitem RCON (i div 4 - 1)) (\<lambda>rc. setitem word 0 (w0 XOR rc)))) = Inr v"
      and vo: "word_ok v" by blast
    from True v have "next_word kcs i = Inr (map (\<lambda>(a, b). a XOR b) (zip v (kcs ! nat (i - 4))))"
      by (simp add: next_word_def l p Let_def)
    with word_ok_xor [OF vo po] show ?thesis by simp
  next
    case False
    then have "next_word kcs i = Inr (map (\<lambda>(a, b). a XOR b) (zip (last kcs) (kcs ! nat (i - 4))))"
      by (simp add: next_word_def l p)
    with word_ok_xor [OF lo po] show ?thesis by simp
  qed
qed

lemma key_expansion_loop_ok:
  assumes "4 \<le> length kcs" and "length kcs \<le> 44" and "i = int (length kcs)"
    and "\<And>w. w \<in> set kcs \<Longrightarrow> word_ok w"
  shows "\<exists>kcs'. key_expansion_loop kcs i = Inr kcs' \<and> length kcs' = 44
           \<and> (\<forall>w \<in> set kcs'. word_ok w) \<and> take (length kcs) kcs' = kcs"
  using assms
proof (induction kcs i rule: key_expansion_loop.induct)
  case (1 key_columns i)
  show ?case
  proof (cases "length key_columns < 44")
    case False
    with "1.prems" show ?thesis by (subst key_expansion_loop.simps) simp
  next
    case True
    from next_word_ok [OF "1.prems"(1) True "1.prems"(3,4)]
    obtain w where w: "next_word key_columns i = Inr w" and wo: "word_ok w" by blast
    have "\<exists>kcs'. key_expansion_loop (key_columns @ [w]) (i + 1) = Inr kcs' \<and> length kcs' = 44
           \<and> (\<forall>w \<in> set kcs'. word_ok w) \<and> take (length (key_columns @ [w])) kcs' = key_columns @ [w]"
      using True "1.prems" wo by (intro "1.IH" [OF True w]) auto
    then obtain kcs' where k: "key_expansion_loop (key_columns @ [w]) (i + 1) = Inr kcs'"
      "length kcs' = 44" "\<forall>w \<in> set kcs'. word_ok w"
      "take (length (key_columns @ [w])) kcs' = key_columns @ [w]" by blast
    from k(4) have "take (length key_columns) (take (length (key_columns @ [w])) kcs') = key_columns"
      by simp
    then have "take (length key_columns) kcs' = key_columns" by (simp add: min_def)
    with k(1-3) True w show ?thesis
      by (subst key_expansion_loop.simps) simp
  qed
qed

subsection \<open>The key schedule\<close>

lemma word_ok_ints_of: "length bs = 4 \<Longrightarrow> word_ok (ints_of bs)"
  by (rule word_okI) (auto simp add: ints_of_def uint_byte_lt)

lemma initial_columns:
  assumes "length k = 16"
  shows "map (\<lambda>i. ints_of (py_slice k (nat i) (nat (i + 4)))) (py_range_step 0 16 4)
       = [ints_of (take 4 k), ints_of (take 4 (drop 4 k)),
          ints_of (take 4 (drop 8 k)), ints_of (take 4 (drop 12 k))]"
  by (simp add: py_range_step_16 py_slice_def)

lemma concat_initial_columns:
  "concat [ints_of (take 4 k), ints_of (take 4 (drop 4 k)),
          ints_of (take 4 (drop 8 k)), ints_of (take 4 (drop 12 k))] = ints_of (take 16 k)"
proof -
  have "take (4 + (4 + (4 + 4))) k
      = take 4 k @ take 4 (drop 4 k) @ take 4 (drop (4 + 4) k) @ take 4 (drop (4 + (4 + 4)) k)"
    by (simp only: take_add drop_drop add.commute)
  then have "take 16 k = take 4 k @ take 4 (drop 4 k) @ take 4 (drop 8 k) @ take 4 (drop 12 k)"
    by simp
  then show ?thesis by (simp add: ints_of_def)
qed

lemma concat_words_ok:
  assumes "\<And>w. w \<in> set ws \<Longrightarrow> word_ok w"
  shows "length (concat ws) = 4 * length ws"
    and "x \<in> set (concat ws) \<Longrightarrow> 0 \<le> x \<and> x < 256"
proof -
  show "length (concat ws) = 4 * length ws"
    using assms by (induction ws) (simp_all add: word_ok_length)
  show "x \<in> set (concat ws) \<Longrightarrow> 0 \<le> x \<and> x < 256"
    using assms by (auto dest: word_ok_range)
qed

lemma round_key_of_columns:
  assumes "length kcs = 44" and "\<And>w. w \<in> set kcs \<Longrightarrow> word_ok w" and "i \<in> set (py_range_step 0 44 4)"
  shows "to_bytes (concat (py_slice kcs (nat i) (nat (i + 4))))
           = Inr (map word_of_int (concat (py_slice kcs (nat i) (nat (i + 4)))))"
    and "length (concat (py_slice kcs (nat i) (nat (i + 4)))) = 16"
proof -
  let ?ws = "py_slice kcs (nat i) (nat (i + 4))"
  have ok: "w \<in> set ?ws \<Longrightarrow> word_ok w" for w
    using assms(2) by (auto simp add: py_slice_def dest: in_set_takeD in_set_dropD)
  have "length ?ws = 4"
    using assms(1,3) by (auto simp add: py_range_step_44 py_slice_def)
  with concat_words_ok(1) [of ?ws] ok show "length (concat ?ws) = 16" by simp
  show "to_bytes (concat ?ws) = Inr (map word_of_int (concat ?ws))"
    by (rule to_bytes_range) (use concat_words_ok(2) [of ?ws] ok in blast)
qed

lemma key_expansion_ok:
  assumes "length k = 16"
  shows "\<exists>rks. key_expansion k = Inr rks \<and> length rks = 11
           \<and> (\<forall>rk \<in> set rks. length rk = 16) \<and> rks ! 0 = k"
proof -
  let ?init = "[ints_of (take 4 k), ints_of (take 4 (drop 4 k)),
          ints_of (take 4 (drop 8 k)), ints_of (take 4 (drop 12 k))]"
  have init_ok: "w \<in> set ?init \<Longrightarrow> word_ok w" for w
    using assms by (auto intro!: word_ok_ints_of)
  have "\<exists>kcs'. key_expansion_loop ?init 4 = Inr kcs' \<and> length kcs' = 44
           \<and> (\<forall>w \<in> set kcs'. word_ok w) \<and> take (length ?init) kcs' = ?init"
    by (rule key_expansion_loop_ok) (use init_ok in simp_all)
  then obtain kcs where loop: "key_expansion_loop ?init 4 = Inr kcs" and len: "length kcs = 44"
    and ok: "\<And>w. w \<in> set kcs \<Longrightarrow> word_ok w" and pre0: "take (length ?init) kcs = ?init"
    by blast
  have "length ?init = 4" by simp
  with pre0 have pre: "take 4 kcs = ?init" by (simp only:)
  let ?rk = "\<lambda>i. concat (py_slice kcs (nat i) (nat (i + 4)))"
  let ?rks = "map (map word_of_int) (map ?rk (py_range_step 0 44 4))"
  have c: "collect to_bytes (map ?rk (py_range_step 0 44 4))
      = Inr (map (map word_of_int) (map ?rk (py_range_step 0 44 4)))"
    by (rule collect_map) (auto simp add: round_key_of_columns(1) [OF len ok])
  have ke: "key_expansion k = Inr ?rks"
    by (simp only: key_expansion_def Let_def initial_columns [OF assms] loop ebind_Inr c)
  have l11: "length ?rks = 11" by (simp add: py_range_step_44)
  have l16: "\<forall>rk \<in> set ?rks. length rk = 16"
    using round_key_of_columns(2) [OF len ok] by auto
  have "?rk 0 = concat (take 4 kcs)" by (simp add: py_slice_def)
  also have "\<dots> = ints_of k" using assms by (simp only: pre concat_initial_columns) simp
  finally have "?rks ! 0 = k" by (simp add: py_range_step_44 ints_of_def comp_def)
  with ke l11 l16 show ?thesis by blast
qed

subsection \<open>Multiplication by 2 and 3 in GF(2^8)\<close>

lemma gf_mul_example: "gf_mul 0x57 0x83 = 0xC1"
  by code_simp

lemma mul_by_02_table:
  "\<forall>b \<in> set [0..255]. mul_by_02 b = (if 128 \<le> b then 2 * b XOR 0x11B else 2 * b)
     \<and> mul_by_02 b = (if b AND 0x80 \<noteq> 0 then (push_bit 1 b XOR 0x1B) AND 0xFF else push_bit 1 b)"
  by code_simp

lemma mul_by_03_table:
  "\<forall>b \<in> set [0..255]. mul_by_03 b = (if 256 \<le> 2 * b XOR b then (2 * b XOR b) XOR 0x11B else 2 * b XOR b)"
  by code_simp

lemma byte_in_table: "0 \<le> b \<Longrightarrow> b \<le> 255 \<Longrightarrow> b \<in> set [0..255]"
  by simp

lemma not_bit_small:
  fixes p :: int
  assumes "0 \<le> p" and "p < 2 ^ m"
  shows "\<not> bit p m"
  using assms by (simp add: bit_iff_odd)

lemma bit_8_iff:
  fixes p :: int
  assumes "0 \<le> p" and "p < 512"
  shows "bit p 8 \<longleftrightarrow> 256 \<le> p"
proof (cases "256 \<le> p")
  case True
  with assms have "p div 256 = 1" by simp
  then show ?thesis using True by (simp add: bit_iff_odd)
next
  case False
  with assms have "p div 256 = 0" by simp
  then show ?thesis using False by (simp add: bit_iff_odd)
qed

lemma poly_reduce_small:
  assumes "0 \<le> p" and "p < 512"
  shows "poly_reduce 7 p = (if 256 \<le> p then p XOR 0x11B else p)"
proof -
  have "\<not> bit p 9" "\<not> bit p 10" "\<not> bit p 11" "\<not> bit p 12" "\<not> bit p 13" "\<not> bit p 14"
    using assms by (simp_all add: not_bit_small)
  then show ?thesis
    using bit_8_iff [OF assms] by (simp add: eval_nat_numeral)
qed

lemma clmul_2: "clmul 8 2 b = 2 * b"
  by (simp add: eval_nat_numeral)

lemma clmul_3: "clmul 8 3 b = 2 * b XOR b"
  by (simp add: eval_nat_numeral xor.commute mult.commute)

lemma gf_mul_2:
  assumes "0 \<le> b" and "b \<le> 255"
  shows "gf_mul 2 b = mul_by_02 b"
proof -
  have "gf_mul 2 b = (if 128 \<le> b then 2 * b XOR 0x11B else 2 * b)"
    using assms by (simp add: gf_mul_def clmul_2 poly_reduce_small)
  with mul_by_02_table byte_in_table [OF assms] show ?thesis by simp
qed

lemma gf_mul_3:
  assumes "0 \<le> b" and "b \<le> 255"
  shows "gf_mul 3 b = mul_by_03 b"
proof -
  have "2 * b XOR b < 2 ^ 9" using assms by (intro XOR_upper) simp_all
  then have "gf_mul 3 b = (if 256 \<le> 2 * b XOR b then (2 * b XOR b) XOR 0x11B else 2 * b XOR b)"
    using assms by (simp add: gf_mul_def clmul_3 poly_reduce_small)
  with mul_by_03_table byte_in_table [OF assms] show ?thesis by simp
qed

subsection \<open>The cipher driver\<close>

lemma AES_init_ok:
  assumes "length k = 16"
  shows "\<exists>rks. AES_init k = Inr \<lparr>key = k, round_keys = rks\<rparr> \<and> key_expansion k = Inr rks
           \<and> length rks = 11 \<and> (\<forall>rk \<in> set rks. length rk = 16) \<and> rks ! 0 = k"
proof -
  from key_expansion_ok [OF assms] obtain rks where "key_expansion k = Inr rks"
    and "length rks = 11" and "\<forall>rk \<in> set rks. length rk = 16" and "rks ! 0 = k" by blast
  then show ?thesis using assms by (simp add: AES_init_def)
qed

lemma AES_init_schedule:
  assumes "AES_init k = Inr aes"
  shows "length k = 16" and "length (round_keys aes) = 11"
    and "\<And>rk. rk \<in> set (round_keys aes) \<Longrightarrow> length rk = 16" and "round_keys aes ! 0 = k"
proof -
  show k: "length k = 16"
    using assms by (cases "length k = 16") (simp_all add: AES_init_def)
  from AES_init_ok [OF k] assms obtain rks where "aes = \<lparr>key = k, round_keys = rks\<rparr>"
    and "length rks = 11" and "\<forall>rk \<in> set rks. length rk = 16" and "rks ! 0 = k" by auto
  then show "length (round_keys aes) = 11"
    and "\<And>rk. rk \<in> set (round_keys aes) \<Longrightarrow> length rk = 16" and "round_keys aes ! 0 = k"
    by simp_all
qed

lemma getitem_round_key:
  assumes "length rks = 11" and "\<And>rk. rk \<in> set rks \<Longrightarrow> length rk = 16"
    and "0 \<le> i" and "i \<le> 10"
  shows "getitem rks i = Inr (rks ! nat i)" and "length (rks ! nat i) = 16"
proof -
  have "nat i < length rks" using assms(1,3,4) by simp
  then show "getitem rks i = Inr (rks ! nat i)" and "length (rks ! nat i) = 16"
    using assms(2,3) by (simp_all add: getitem_nonneg)
qed

lemma rounds_ok:
  assumes "length rks = 11" and "\<And>rk. rk \<in> set rks \<Longrightarrow> length rk = 16"
    and "length s = 16" and "\<And>i. i \<in> set is \<Longrightarrow> 0 \<le> i \<and> i \<le> 10"
  shows "\<exists>t. foreach is (\<lambda>i state. ebind (getitem rks i) (\<lambda>rk. round state rk)) s = Inr t
           \<and> length t = 16"
proof (rule foreach_invariant [where P = "\<lambda>t :: bytes. length t = 16"])
  show "length s = 16" by (rule assms(3))
next
  fix i and t :: bytes
  assume i: "i \<in> set is" and t: "length t = 16"
  from assms(4) [OF i] have "getitem rks i = Inr (rks ! nat i)" and "length (rks ! nat i) = 16"
    using getitem_round_key [OF assms(1,2)] by simp_all
  with round_ok [of t "rks ! nat i"] t
  show "\<exists>t'. ebind (getitem rks i) (\<lambda>rk. round t rk) = Inr t' \<and> length t' = 16"
    by simp
qed

lemma encrypt_ok:
  assumes "length (round_keys aes) = 11" and "\<And>rk. rk \<in> set (round_keys aes) \<Longrightarrow> length rk = 16"
    and "16 \<le> length p"
  shows "\<exists>c. encrypt aes p = Inr c \<and> length c = 16"
proof -
  let ?rks = "round_keys aes"
  note gk = getitem_round_key [OF assms(1,2)]
  have g0: "getitem ?rks 0 = Inr (?rks ! 0)" and l0: "length (?rks ! 0) = 16"
    using gk [of 0] by simp_all
  have g10: "getitem ?rks 10 = Inr (?rks ! 10)" and l10: "length (?rks ! 10) = 16"
    using gk [of 10] by simp_all
  let ?s = "map (\<lambda>(b, k). b XOR k) (zip p (?rks ! 0))"
  have ls: "length ?s = 16" using assms(3) l0 by simp
  have "\<exists>t. foreach (py_range 1 10) (\<lambda>i state. ebind (getitem ?rks i) (\<lambda>rk. round state rk)) ?s
          = Inr t \<and> length t = 16"
    by (rule rounds_ok [OF assms(1,2) ls]) (auto simp add: py_range_1_10)
  then obtain t where t: "foreach (py_range 1 10)
      (\<lambda>i state. ebind (getitem ?rks i) (\<lambda>rk. round state rk)) ?s = Inr t" and lt: "length t = 16"
    by blast
  from final_round_ok [of t "?rks ! 10"] lt l10
  obtain c where "final_round t (?rks ! 10) = Inr c" and "length c = 16" by auto
  then show ?thesis
    by (simp add: encrypt_def g0 g10 add_round_key_eq t)
qed

lemma partially_encrypt_10: "partially_encrypt aes p 10 = encrypt aes p"
  by (simp add: partially_encrypt_def encrypt_def)

lemma zip_take_left: "length ys \<le> n \<Longrightarrow> zip (take n xs) ys = zip xs ys"
proof (induction xs ys arbitrary: n rule: list_induct2')
  case (4 x xs y ys)
  then show ?case by (cases n) simp_all
qed simp_all

lemma encrypt_take:
  assumes "length (round_keys aes) = 11" and "\<And>rk. rk \<in> set (round_keys aes) \<Longrightarrow> length rk = 16"
  shows "encrypt aes (take 16 p) = encrypt aes p"
proof -
  have g0: "getitem (round_keys aes) 0 = Inr (round_keys aes ! 0)"
    and l0: "length (round_keys aes ! 0) = 16"
    using getitem_round_key [OF assms, of 0] by simp_all
  have "zip (take 16 p) (round_keys aes ! 0) = zip p (round_keys aes ! 0)"
    by (rule zip_take_left) (simp add: l0)
  then show ?thesis by (simp add: encrypt_def g0 add_round_key_eq)
qed

lemma less_4_cases: "n < 4 \<Longrightarrow> n = 0 \<or> n = 1 \<or> n = 2 \<or> n = (3 :: nat)"
  by arith

lemma uint_word_of_int_byte: "0 \<le> x \<Longrightarrow> x < 256 \<Longrightarrow> uint (word_of_int x :: byte) = x"
  by (simp add: uint_word_of_int take_bit_eq_mod)

lemma clmul_by_2_table: "\<forall>b \<in> set [0..255]. clmul 8 b 2 = 2 * b"
  by code_simp

lemma gf_mul_by_2:
  assumes "0 \<le> b" and "b \<le> 255"
  shows "gf_mul b 2 = mul_by_02 b"
proof -
  have b: "b \<in> set [0..255]" using assms by (rule byte_in_table)
  with clmul_by_2_table have "clmul 8 b 2 = 2 * b" by blast
  then have "gf_mul b 2 = (if 128 \<le> b then 2 * b XOR 0x11B else 2 * b)"
    using assms by (simp add: gf_mul_def poly_reduce_small)
  with mul_by_02_table b show ?thesis by simp
qed

lemma nth_mixed_columns:
  assumes "c < 4" and "r < 4"
  shows "(mixed_column s 0 @ mixed_column s 1 @ mixed_column s 2 @ mixed_column s 3) ! (r + 4 * c)
       = mixed_column s c ! r"
  using less_4_cases [OF assms(1)] assms(2)
  by (auto simp add: nth_append length_mixed_column)

lemma mix_column_nth:
  assumes "16 \<le> length s" and "c < 4" and "r < 4"
  shows "\<exists>t. mix_column s = Inr t \<and> length t = 16
           \<and> uint (t ! (r + 4 * c)) = mixed_column s c ! r"
proof -
  let ?m = "mixed_column s 0 @ mixed_column s 1 @ mixed_column s 2 @ mixed_column s 3"
  have len: "length ?m = 16" by (simp add: length_mixed_column)
  have i: "r + 4 * c < 16" using assms(2,3) by simp
  have "mixed_column s c ! r \<in> set (mixed_column s c)"
    using assms(3) by (simp add: length_mixed_column)
  then have "0 \<le> mixed_column s c ! r \<and> mixed_column s c ! r < 256"
    by (rule mixed_column_range)
  then have "uint (word_of_int (mixed_column s c ! r) :: byte) = mixed_column s c ! r"
    by (simp add: uint_word_of_int_byte)
  moreover have "(map word_of_int ?m ! (r + 4 * c) :: byte) = word_of_int (?m ! (r + 4 * c))"
    by (rule nth_map) (simp only: len i)
  ultimately have "uint (map word_of_int ?m ! (r + 4 * c) :: byte) = mixed_column s c ! r"
    by (simp only: nth_mixed_columns [OF assms(2,3)])
  moreover have "length (map word_of_int ?m :: bytes) = 16"
    by (simp only: length_map len)
  ultimately show ?thesis
    unfolding mix_column_eq [OF assms(1)] by blast
qed

section \<open>The claims\<close>

text \<open>
  C1. For the cipher constructed with the key \<open>000102030405060708090a0b0c0d0e0f\<close>,
  \<open>encrypt\<close> applied to the plaintext \<open>00112233445566778899aabbccddeeff\<close> returns
  exactly the ciphertext \<open>69c4e0d86a7b0430d8cdb78070b4c55a\<close> (the known-answer test of
  FIPS-197).
\<close>

theorem fips197_known_answer:
  "ebind (AES_init kat_key) (\<lambda>aes. encrypt aes kat_pt)
     = Inr [0x69, 0xc4, 0xe0, 0xd8, 0x6a, 0x7b, 0x04, 0x30,
            0xd8, 0xcd, 0xb7, 0x80, 0x70, 0xb4, 0xc5, 0x5a]"
  by code_simp

text \<open>
  C2. For every cipher constructed with a 16-byte key and every 16-byte plaintext \<open>p\<close>,
  \<open>partially_encrypt(p, 10)\<close> returns the same 16-byte block as \<open>encrypt(p)\<close>: both
  calls return, neither raises.
\<close>

theorem partially_encrypt_10_is_encrypt:
  assumes "AES_init k = Inr aes" and "length p = 16"
  shows "\<exists>c. encrypt aes p = Inr c \<and> length c = 16 \<and> partially_encrypt aes p 10 = Inr c"
proof -
  have "\<exists>c. encrypt aes p = Inr c \<and> length c = 16"
    using AES_init_schedule(2,3) [OF assms(1)] assms(2) by (intro encrypt_ok) simp_all
  then show ?thesis by (auto simp add: partially_encrypt_10)
qed

theorem partially_encrypt_10_is_encrypt_witness:
  "\<exists>aes c. AES_init kat_key = Inr aes \<and> length kat_pt = 16 \<and> encrypt aes kat_pt = Inr c
     \<and> length c = 16 \<and> partially_encrypt aes kat_pt 10 = Inr c"
proof -
  have p: "length kat_pt = 16" by (simp add: kat_pt_def)
  have "length kat_key = 16" by (simp add: kat_key_def)
  from AES_init_ok [OF this] obtain aes where aes: "AES_init kat_key = Inr aes" by blast
  from partially_encrypt_10_is_encrypt [OF aes p] aes p show ?thesis by blast
qed

text \<open>
  C3. The claim: for \<open>1 \<le> num_rounds \<le> 10\<close>, \<open>partially_encrypt(p, num_rounds)\<close>
  executes exactly \<open>num_rounds\<close> round transformations after the initial whitening. The
  code runs the main rounds \<open>1 \<dots> num_rounds - 1\<close> and adds the final round only when
  \<open>num_rounds = 10\<close>, so below 10 it executes one round fewer than asked for. With
  \<open>num_rounds = 1\<close> no round is executed at all: for every cipher and plaintext the result
  is the whitened plaintext, and on the FIPS-197 vector it differs from the state after
  one main round.
\<close>

theorem partially_encrypt_1_runs_no_round:
  "partially_encrypt aes p 1 = ebind (getitem (round_keys aes) 0) (\<lambda>rk. add_round_key p rk)
   \<and> ebind (AES_init kat_key) (\<lambda>aes. partially_encrypt aes kat_pt 1)
       = Inr [0x00, 0x10, 0x20, 0x30, 0x40, 0x50, 0x60, 0x70,
              0x80, 0x90, 0xa0, 0xb0, 0xc0, 0xd0, 0xe0, 0xf0]
   \<and> ebind (AES_init kat_key) (\<lambda>aes.
         ebind (getitem (round_keys aes) 0) (\<lambda>rk0.
         ebind (add_round_key kat_pt rk0) (\<lambda>state.
         ebind (getitem (round_keys aes) 1) (\<lambda>rk1. round state rk1))))
       = Inr [0x89, 0xd8, 0x10, 0xe8, 0x85, 0x5a, 0xce, 0x68,
              0x2d, 0x18, 0x43, 0xd8, 0xcb, 0x12, 0x8f, 0xe4]"
proof (intro conjI)
  have "py_range 1 1 = []" by (simp add: py_range_def)
  then show "partially_encrypt aes p 1
      = ebind (getitem (round_keys aes) 0) (\<lambda>rk. add_round_key p rk)"
    by (simp add: partially_encrypt_def ebind_def split: sum.split)
  show "ebind (AES_init kat_key) (\<lambda>aes. partially_encrypt aes kat_pt 1)
       = Inr [0x00, 0x10, 0x20, 0x30, 0x40, 0x50, 0x60, 0x70,
              0x80, 0x90, 0xa0, 0xb0, 0xc0, 0xd0, 0xe0, 0xf0]"
    by code_simp
  show "ebind (AES_init kat_key) (\<lambda>aes.
         ebind (getitem (round_keys aes) 0) (\<lambda>rk0.
         ebind (add_round_key kat_pt rk0) (\<lambda>state.
         ebind (getitem (round_keys aes) 1) (\<lambda>rk1. round state rk1))))
       = Inr [0x89, 0xd8, 0x10, 0xe8, 0x85, 0x5a, 0xce, 0x68,
              0x2d, 0x18, 0x43, 0xd8, 0xcb, 0x12, 0x8f, 0xe4]"
    by code_simp
qed

text \<open>
  C4. Constructing a cipher raises the invalid-key-size error if and only if the key is
  not exactly 16 bytes long; for every 16-byte key the construction succeeds, and the
  object holds the key and the key schedule that \<open>key_expansion\<close> returns.
\<close>

theorem AES_init_key_size:
  "(AES_init k = Inl InvalidKeySize \<longleftrightarrow> length k \<noteq> 16)
   \<and> (length k = 16 \<longrightarrow>
        (\<exists>rks. key_expansion k = Inr rks \<and> AES_init k = Inr \<lparr>key = k, round_keys = rks\<rparr>))"
proof (cases "length k = 16")
  case True
  from AES_init_ok [OF True] show ?thesis using True by auto
next
  case False
  then show ?thesis by (simp add: AES_init_def)
qed

theorem AES_init_key_size_witness:
  "AES_init (take 15 kat_key) = Inl InvalidKeySize \<and> length (take 15 kat_key) \<noteq> 16
   \<and> AES_init kat_key \<noteq> Inl InvalidKeySize \<and> length kat_key = 16
   \<and> (\<exists>rks. key_expansion kat_key = Inr rks
          \<and> AES_init kat_key = Inr \<lparr>key = kat_key, round_keys = rks\<rparr>)"
  using AES_init_key_size [of kat_key] AES_init_key_size [of "take 15 kat_key"]
  by (simp add: kat_key_def)

text \<open>
  C5. For every 16-byte key, key expansion returns a key schedule of exactly 11 round
  keys, each exactly 16 bytes long, and round key 0 is the master key.
\<close>

theorem key_schedule_structure:
  assumes "length k = 16"
  shows "\<exists>rks. key_expansion k = Inr rks \<and> length rks = 11
           \<and> (\<forall>rk \<in> set rks. length rk = 16) \<and> rks ! 0 = k"
  using assms by (rule key_expansion_ok)

theorem key_schedule_structure_witness:
  "length kat_key = 16
   \<and> (\<exists>rks. key_expansion kat_key = Inr rks \<and> length rks = 11
          \<and> list_all (\<lambda>rk. length rk = 16) rks \<and> rks ! 0 = kat_key)"
proof -
  have "length kat_key = 16" by (simp add: kat_key_def)
  with key_schedule_structure [of kat_key] show ?thesis by (simp add: list_all_iff)
qed

text \<open>
  C6. For every 16-byte state, read as a column-major 4x4 matrix (byte \<open>r + 4 * c\<close> is row
  \<open>r\<close> of column \<open>c\<close>), MixColumns maps each column \<open>[a0, a1, a2, a3]\<close> to
  \<open>[b0, b1, b2, b3]\<close> with \<open>b0 = 2*a0 xor 3*a1 xor a2 xor a3\<close>,
  \<open>b1 = a0 xor 2*a1 xor 3*a2 xor a3\<close>, \<open>b2 = a0 xor a1 xor 2*a2 xor 3*a3\<close> and
  \<open>b3 = 3*a0 xor a1 xor a2 xor 2*a3\<close>, where \<open>*\<close> is the multiplication of GF(2^8)
  under the AES polynomial, and writes the result back in the same layout.
\<close>

theorem mix_column_formula:
  assumes "length s = 16" and "c < 4"
  shows "\<exists>t. mix_column s = Inr t \<and> length t = 16 \<and>
    (let a0 = uint (s ! (0 + 4 * c)); a1 = uint (s ! (1 + 4 * c));
         a2 = uint (s ! (2 + 4 * c)); a3 = uint (s ! (3 + 4 * c))
     in uint (t ! (0 + 4 * c)) = gf_mul 2 a0 XOR gf_mul 3 a1 XOR a2 XOR a3
      \<and> uint (t ! (1 + 4 * c)) = a0 XOR gf_mul 2 a1 XOR gf_mul 3 a2 XOR a3
      \<and> uint (t ! (2 + 4 * c)) = a0 XOR a1 XOR gf_mul 2 a2 XOR gf_mul 3 a3
      \<and> uint (t ! (3 + 4 * c)) = gf_mul 3 a0 XOR a1 XOR a2 XOR gf_mul 2 a3)"
proof -
  have g2: "gf_mul 2 (uint b) = mul_by_02 (uint b)" for b :: byte
    using uint_byte_lt [of b] by (intro gf_mul_2) simp_all
  have g3: "gf_mul 3 (uint b) = mul_by_03 (uint b)" for b :: byte
    using uint_byte_lt [of b] by (intro gf_mul_3) simp_all
  have s: "16 \<le> length s" using assms(1) by simp
  have "(0 :: nat) < 4" by simp
  from mix_column_nth [OF s assms(2) this] obtain t where t: "mix_column s = Inr t"
    and len: "length t = 16" by blast
  have "uint (t ! (r + 4 * c)) = mixed_column s c ! r" if "r < 4" for r
    using mix_column_nth [OF s assms(2) that] t by auto
  from this [of 0] this [of 1] this [of 2] this [of 3]
  have "uint (t ! (0 + 4 * c)) = mixed_column s c ! 0"
    and "uint (t ! (1 + 4 * c)) = mixed_column s c ! 1"
    and "uint (t ! (2 + 4 * c)) = mixed_column s c ! 2"
    and "uint (t ! (3 + 4 * c)) = mixed_column s c ! 3"
    by simp_all
  with t len show ?thesis
    by (simp add: mixed_column_def Let_def g2 g3 add.commute)
qed

theorem mix_column_formula_witness:
  "length kat_pt = 16 \<and> (2 :: nat) < 4 \<and>
   (\<exists>t. mix_column kat_pt = Inr t \<and> length t = 16
      \<and> uint (t ! 8) = gf_mul 2 0x88 XOR gf_mul 3 0x99 XOR 0xaa XOR 0xbb
      \<and> uint (t ! 9) = 0x88 XOR gf_mul 2 0x99 XOR gf_mul 3 0xaa XOR 0xbb
      \<and> uint (t ! 10) = 0x88 XOR 0x99 XOR gf_mul 2 0xaa XOR gf_mul 3 0xbb
      \<and> uint (t ! 11) = gf_mul 3 0x88 XOR 0x99 XOR 0xaa XOR gf_mul 2 0xbb)"
proof -
  have "length kat_pt = 16" by (simp add: kat_pt_def)
  from mix_column_formula [OF this, of 2] this show ?thesis
    by (simp add: kat_pt_def Let_def)
qed

text \<open>
  C7. For every integer \<open>b\<close> with \<open>0 \<le> b \<le> 255\<close>, \<open>mul_by_02(b)\<close> is \<open>b\<close> shifted left
  by one bit, then XORed with \<open>0x1B\<close> and masked to 8 bits when bit \<open>0x80\<close> of \<open>b\<close> was
  set; this is the GF(2^8) product of \<open>b\<close> and the polynomial \<open>x\<close> modulo
  \<open>x^8 + x^4 + x^3 + x + 1\<close>, and the result is in \<open>0 \<dots> 255\<close>.
\<close>

theorem mul_by_02_xtime:
  assumes "0 \<le> b" and "b \<le> 255"
  shows "mul_by_02 b
           = (if b AND 0x80 \<noteq> 0 then (push_bit 1 b XOR 0x1B) AND 0xFF else push_bit 1 b)
         \<and> mul_by_02 b = gf_mul b 2 \<and> mul_by_02 b = gf_mul 2 b
         \<and> 0 \<le> mul_by_02 b \<and> mul_by_02 b \<le> 255"
proof -
  have "b \<in> set [0..255]" using assms by (rule byte_in_table)
  with mul_by_02_table have "mul_by_02 b
      = (if b AND 0x80 \<noteq> 0 then (push_bit 1 b XOR 0x1B) AND 0xFF else push_bit 1 b)"
    by blast
  moreover have "mul_by_02 b = gf_mul b 2" and "mul_by_02 b = gf_mul 2 b"
    using gf_mul_by_2 [OF assms] gf_mul_2 [OF assms] by simp_all
  moreover have "0 \<le> mul_by_02 b" and "mul_by_02 b \<le> 255"
    using mul_by_02_range [of b] by simp_all
  ultimately show ?thesis by blast
qed

theorem mul_by_02_xtime_witness:
  "(0 :: int) \<le> 0x80 \<and> (0x80 :: int) \<le> 255 \<and> mul_by_02 0x80 = 0x1B
   \<and> mul_by_02 0x80 = gf_mul 0x80 2 \<and> mul_by_02 0x80 = gf_mul 2 0x80"
  using mul_by_02_xtime [of "0x80"] by (simp add: mul_by_02_def)

text \<open>
  C8. For every 16-byte state, ShiftRows rotates row \<open>r\<close> (the bytes at \<open>r + 4 * c\<close>)
  left by \<open>r\<close> positions: the output byte at \<open>r + 4 * c\<close> is the input byte at
  \<open>r + 4 * ((c + r) mod 4)\<close>, so row 0 is unchanged, row 1 moves by 1, row 2 by 2 and
  row 3 by 3.
\<close>

theorem shift_rows_rotates_rows:
  assumes "length s = 16" and "r < 4" and "c < 4"
  shows "\<exists>t. shift_rows s = Inr t \<and> length t = 16
           \<and> t ! (r + 4 * c) = s ! (r + 4 * ((c + r) mod 4))"
proof -
  have "16 \<le> length s" using assms(1) by simp
  then show ?thesis
    using less_4_cases [OF assms(2)] less_4_cases [OF assms(3)]
    by (auto simp add: shift_rows_eq)
qed

theorem shift_rows_rotates_rows_witness:
  "length kat_pt = 16 \<and> (3 :: nat) < 4 \<and> (2 :: nat) < 4
   \<and> (\<exists>t. shift_rows kat_pt = Inr t \<and> length t = 16 \<and> t ! 11 = kat_pt ! 7 \<and> t ! 11 = 0x77)"
proof -
  have "length kat_pt = 16" by (simp add: kat_pt_def)
  from shift_rows_rotates_rows [OF this, of 3 2] this show ?thesis
    by (auto simp add: kat_pt_def)
qed

text \<open>
  C9. AddRoundKey is self-inverse: for every 16-byte state \<open>s\<close> and every 16-byte round
  key \<open>k\<close>, \<open>add_round_key(add_round_key(s, k), k)\<close> returns \<open>s\<close>.
\<close>

theorem add_round_key_self_inverse:
  assumes "length s = 16" and "length k = 16"
  shows "ebind (add_round_key s k) (\<lambda>t. add_round_key t k) = Inr s"
proof -
  from assms have "length s = length k" by simp
  then have "map (\<lambda>(b, k). b XOR k) (zip (map (\<lambda>(b, k). b XOR k) (zip s k)) k) = s"
    by (induction s k rule: list_induct2) (simp_all add: xor.assoc)
  then show ?thesis by (simp add: add_round_key_eq)
qed

theorem add_round_key_self_inverse_witness:
  "length kat_pt = 16 \<and> length kat_key = 16
     \<and> ebind (add_round_key kat_pt kat_key) (\<lambda>t. add_round_key t kat_key) = Inr kat_pt"
  using add_round_key_self_inverse [of kat_pt kat_key] by (simp add: kat_pt_def kat_key_def)

text \<open>
  C10. For every cipher constructed with a 16-byte key and every byte sequence \<open>p\<close>
  longer than 16 bytes, \<open>encrypt(p)\<close> raises no error and returns the same 16-byte block
  as \<open>encrypt\<close> applied to the first 16 bytes of \<open>p\<close>: the initial \<open>add_round_key\<close> zips
  the input with the 16-byte round key, which drops the excess bytes.
\<close>

theorem encrypt_discards_excess:
  assumes "AES_init k = Inr aes" and "16 < length p"
  shows "\<exists>c. encrypt aes p = Inr c \<and> length c = 16 \<and> encrypt aes (take 16 p) = Inr c"
proof -
  note sched = AES_init_schedule(2,3) [OF assms(1)]
  have "\<exists>c. encrypt aes p = Inr c \<and> length c = 16"
    using sched assms(2) by (intro encrypt_ok) simp_all
  moreover have "encrypt aes (take 16 p) = encrypt aes p"
    using sched by (intro encrypt_take) simp_all
  ultimately show ?thesis by auto
qed

theorem encrypt_discards_excess_witness:
  "\<exists>aes c. AES_init kat_key = Inr aes \<and> 16 < length (kat_pt @ [0x01, 0x02])
     \<and> encrypt aes (kat_pt @ [0x01, 0x02]) = Inr c \<and> length c = 16
     \<and> encrypt aes (take 16 (kat_pt @ [0x01, 0x02])) = Inr c"
proof -
  have p: "16 < length (kat_pt @ [0x01, 0x02])" by (simp add: kat_pt_def)
  have "length kat_key = 16" by (simp add: kat_key_def)
  from AES_init_ok [OF this] obtain aes where aes: "AES_init kat_key = Inr aes" by blast
  from encrypt_discards_excess [OF aes p] aes p show ?thesis by blast
qed

end
